theory Spec2Isabelle
  imports Main
begin

section \<open>The pipeline library (pipeline.go)\<close>

text \<open>
  The Go package composes steps \<^verbatim>\<open>func(T) (T, error)\<close>. Go functions are closures: a
  step, a predicate or a combiner may read and change variables outside itself (the
  tests count calls and append to a log that way). The embedding makes this explicit by
  passing a world \<open>'w\<close> through every call: a callable takes the world it runs in and
  returns the world it leaves. A pure callable returns the world unchanged. Where the
  source returns a closure \<^verbatim>\<open>func(input T) (T, error) { ... }\<close>, the definition gives the
  closure applied to its input and its world.

  The error interface is modelled as \<open>'e option\<close>: \<open>None\<close> is Go's \<^verbatim>\<open>nil\<close>,
  \<open>Some e\<close> a failure carrying \<open>e\<close>.
\<close>

type_synonym ('t, 'e, 'w) StepFunc = "'t \<Rightarrow> 'w \<Rightarrow> ('t \<times> 'e option) \<times> 'w"

text \<open>
  A middleware maps a step to a step. Building the wrapped step is taken to be pure
  (the effects of a middleware happen when the wrapped step is called, inside the step
  it returns).
\<close>

type_synonym ('t, 'e, 'w) Middleware = "('t, 'e, 'w) StepFunc \<Rightarrow> ('t, 'e, 'w) StepFunc"

record ('t, 'e, 'w) Pipeline =
  steps :: "('t, 'e, 'w) StepFunc list"
  middlewares :: "('t, 'e, 'w) Middleware list"

text \<open>
  The methods mutate the pipeline behind a pointer and return that pointer; the model
  returns the updated pipeline.
\<close>

definition New :: "('t, 'e, 'w) Pipeline" where
  "New = \<lparr>steps = [], middlewares = []\<rparr>"

definition Use :: "('t, 'e, 'w) Pipeline \<Rightarrow> ('t, 'e, 'w) Middleware \<Rightarrow> ('t, 'e, 'w) Pipeline" where
  "Use p mw = p\<lparr>middlewares := middlewares p @ [mw]\<rparr>"

text \<open>
  The loop of \<open>Then\<close>: \<^verbatim>\<open>for i := len(p.middlewares) - 1; i >= 0; i-- { step = p.middlewares[i](step) }\<close>.
  \<open>Then_loop mws n step\<close> is the loop with \<open>n = i + 1\<close> iterations left, so that the
  counter stays a natural number; the equation for \<open>Suc i\<close> is the loop body at index \<open>i\<close>.
\<close>

fun Then_loop :: "('t, 'e, 'w) Middleware list \<Rightarrow> nat \<Rightarrow> ('t, 'e, 'w) StepFunc \<Rightarrow> ('t, 'e, 'w) StepFunc" where
  "Then_loop mws 0 step = step"
| "Then_loop mws (Suc i) step = Then_loop mws i ((mws ! i) step)"

definition Then :: "('t, 'e, 'w) Pipeline \<Rightarrow> ('t, 'e, 'w) StepFunc \<Rightarrow> ('t, 'e, 'w) Pipeline" where
  "Then p step =
     p\<lparr>steps := steps p @ [Then_loop (middlewares p) (length (middlewares p)) step]\<rparr>"

text \<open>
  The loop of \<open>Execute\<close> over the remaining steps, with the running value \<open>cur\<close>:
  a step's value replaces \<open>cur\<close> before the error is looked at, so a failing step's
  own value is what is returned.
\<close>

fun Execute_loop :: "('t, 'e, 'w) StepFunc list \<Rightarrow> 't \<Rightarrow> 'w \<Rightarrow> ('t \<times> 'e option) \<times> 'w" where
  "Execute_loop [] cur w = ((cur, None), w)"
| "Execute_loop (s # rest) cur w =
     (case s cur w of
        ((cur', err), w') \<Rightarrow>
          if err \<noteq> None then ((cur', err), w') else Execute_loop rest cur' w')"

definition Execute :: "('t, 'e, 'w) Pipeline \<Rightarrow> ('t, 'e, 'w) StepFunc" where
  "Execute p input w = Execute_loop (steps p) input w"

text \<open>
  \<open>Wrap\<close>: the Go comment and the README ask for a pure function \<^verbatim>\<open>f(T) T\<close>, so \<open>f\<close>
  is a HOL function on values; the step it gives returns \<^verbatim>\<open>f(input), nil\<close> and leaves
  the world alone.
\<close>

definition Wrap :: "('t \<Rightarrow> 't) \<Rightarrow> ('t, 'e, 'w) StepFunc" where
  "Wrap f input w = ((f input, None), w)"

text \<open>
  \<open>Conditional\<close>: the predicate is a Go closure too, so it runs in the world and may
  change it; the chosen branch runs in the world the predicate leaves.
\<close>

definition Conditional ::
  "('t \<Rightarrow> 'w \<Rightarrow> bool \<times> 'w) \<Rightarrow> ('t, 'e, 'w) StepFunc \<Rightarrow> ('t, 'e, 'w) StepFunc \<Rightarrow> ('t, 'e, 'w) StepFunc" where
  "Conditional predicate thenStep elseStep input w =
     (case predicate input w of
        (b, w') \<Rightarrow> if b then thenStep input w' else elseStep input w')"

subsection \<open>Parallel\<close>

text \<open>
  \<open>Parallel\<close> starts one goroutine per branch, each running
  \<^verbatim>\<open>results[idx], errs[idx] = s(input)\<close>, and waits for all of them. The order in which
  the goroutines run is not fixed by the program. The model takes it as a parameter: the
  schedule \<open>sched\<close> lists the branch indices in the order in which the branches run, and a
  branch runs as one piece (its effects on the world are not interleaved with those of
  another branch). \<open>run_branches\<close> is the state of the two arrays and of the world after
  the branches of \<open>sched\<close> have run. The parameter called \<^verbatim>\<open>steps\<close> in the source is
  \<open>branches\<close> here, \<open>steps\<close> being the field of the pipeline.
\<close>

fun run_branches ::
  "('t, 'e, 'w) StepFunc list \<Rightarrow> 't \<Rightarrow> nat list \<Rightarrow> 't list \<Rightarrow> 'e option list \<Rightarrow> 'w
     \<Rightarrow> 't list \<times> 'e option list \<times> 'w" where
  "run_branches branches input [] results errs w = (results, errs, w)"
| "run_branches branches input (idx # rest) results errs w =
     (case (branches ! idx) input w of
        ((r, e), w') \<Rightarrow>
          run_branches branches input rest (results[idx := r]) (errs[idx := e]) w')"

text \<open>
  \<^verbatim>\<open>wg.Wait()\<close> returns once every branch has run: the schedules of \<open>n\<close> branches are the
  orderings of the indices below \<open>n\<close>.
\<close>

definition is_schedule :: "nat list \<Rightarrow> nat \<Rightarrow> bool" where
  "is_schedule sched n = (distinct sched \<and> set sched = {0..<n})"

text \<open>
  The scan \<^verbatim>\<open>for _, err := range errs { if err != nil { return results[0], err } }\<close>:
  \<open>first_error\<close> is the error the scan returns with, \<open>None\<close> when it falls through.
\<close>

fun first_error :: "'e option list \<Rightarrow> 'e option" where
  "first_error [] = None"
| "first_error (err # rest) = (if err \<noteq> None then err else first_error rest)"

text \<open>
  \<^verbatim>\<open>make([]T, len(steps))\<close> fills the results with the zero value of \<open>T\<close>, which Go takes
  from the type; here it is the parameter \<open>zero\<close>. When the scan returns, \<open>errs\<close> has an
  element, so \<^verbatim>\<open>results[0]\<close> is in range.
\<close>

definition Parallel ::
  "'t \<Rightarrow> nat list \<Rightarrow> ('t list \<Rightarrow> 'w \<Rightarrow> ('t \<times> 'e option) \<times> 'w) \<Rightarrow> ('t, 'e, 'w) StepFunc list
     \<Rightarrow> ('t, 'e, 'w) StepFunc" where
  "Parallel zero sched combiner branches input w =
     (case run_branches branches input sched
             (replicate (length branches) zero) (replicate (length branches) None) w of
        (results, errs, w') \<Rightarrow>
          (case first_error errs of
             Some e \<Rightarrow> ((results ! 0, Some e), w')
           | None \<Rightarrow> combiner results w'))"

subsection \<open>What one branch of a fan-out did\<close>

text \<open>
  To say what a slot of the arrays holds, the theorems name the call a branch made:
  \<open>world_after\<close> is the world once the branches of a schedule have run, and
  \<open>branch_call\<close> is the call of branch \<open>i\<close>, made in the world left by the branches
  scheduled before it.
\<close>

fun world_after :: "('t, 'e, 'w) StepFunc list \<Rightarrow> 't \<Rightarrow> nat list \<Rightarrow> 'w \<Rightarrow> 'w" where
  "world_after branches input [] w = w"
| "world_after branches input (idx # rest) w =
     world_after branches input rest (snd ((branches ! idx) input w))"

definition branch_call ::
  "('t, 'e, 'w) StepFunc list \<Rightarrow> 't \<Rightarrow> nat list \<Rightarrow> 'w \<Rightarrow> nat \<Rightarrow> ('t \<times> 'e option) \<times> 'w" where
  "branch_call branches input sched w i =
     (branches ! i) input (world_after branches input (takeWhile (\<lambda>j. j \<noteq> i) sched) w)"

definition branch_result :: "('t, 'e, 'w) StepFunc list \<Rightarrow> 't \<Rightarrow> nat list \<Rightarrow> 'w \<Rightarrow> nat \<Rightarrow> 't" where
  "branch_result branches input sched w i = fst (fst (branch_call branches input sched w i))"

definition branch_error ::
  "('t, 'e, 'w) StepFunc list \<Rightarrow> 't \<Rightarrow> nat list \<Rightarrow> 'w \<Rightarrow> nat \<Rightarrow> 'e option" where
  "branch_error branches input sched w i = snd (fst (branch_call branches input sched w i))"

subsection \<open>Callables of the tests\<close>

text \<open>
  The middleware of \<^verbatim>\<open>TestPipeline_Middleware\<close> (and of the README) does something with the
  input, calls \<^verbatim>\<open>next\<close>, does something with the result and returns what \<^verbatim>\<open>next\<close>
  returned. \<open>around_mw before after\<close> is that middleware for any two effects on the world.
\<close>

definition around_mw :: "('t \<Rightarrow> 'w \<Rightarrow> 'w) \<Rightarrow> ('t \<Rightarrow> 'w \<Rightarrow> 'w) \<Rightarrow> ('t, 'e, 'w) Middleware" where
  "around_mw before after next x w =
     (case next x (before x w) of ((res, err), w') \<Rightarrow> ((res, err), after res w'))"

text \<open>
  The combiner of \<^verbatim>\<open>TestPipeline_Parallel\<close>: the sum of the results, no failure. Go's
  \<^verbatim>\<open>int\<close> is taken as \<open>int\<close>; the sums of the tests are far from its bounds.
\<close>

definition sum_combiner :: "int list \<Rightarrow> 'w \<Rightarrow> (int \<times> 'e option) \<times> 'w" where
  "sum_combiner results w = ((fold (\<lambda>v sum. sum + v) results 0, None), w)"

section \<open>Auxiliary lemmas\<close>

subsection \<open>The loops of the pipeline\<close>

text \<open>Running a step list in two parts: the second part runs only if the first succeeded.\<close>

lemma Execute_loop_append:
  "Execute_loop (pre @ post) x w =
     (case Execute_loop pre x w of
        ((v, err), w') \<Rightarrow> if err \<noteq> None then ((v, err), w') else Execute_loop post v w')"
  by (induction pre arbitrary: x w) (auto split: prod.splits)

text \<open>
  The loop of \<open>Then\<close> nests the middleware as \<open>foldr\<close> does: the first of the list is
  applied last and so ends up outermost.
\<close>

lemma Then_loop_foldr:
  "n \<le> length mws \<Longrightarrow> Then_loop mws n step = foldr (\<lambda>mw st. mw st) (take n mws) step"
proof (induction n arbitrary: step)
  case 0
  then show ?case by simp
next
  case (Suc n)
  then have "take (Suc n) mws = take n mws @ [mws ! n]"
    by (simp add: take_Suc_conv_app_nth)
  with Suc show ?case by simp
qed

lemma Then_steps:
  "steps (Then p step) = steps p @ [foldr (\<lambda>mw st. mw st) (middlewares p) step]"
  by (simp add: Then_def Then_loop_foldr)

lemma fold_Then_no_middleware:
  "middlewares p = [] \<Longrightarrow>
     steps (fold (\<lambda>st q. Then q st) sts p) = steps p @ sts
     \<and> middlewares (fold (\<lambda>st q. Then q st) sts p) = []"
  by (induction sts arbitrary: p) (simp_all add: Then_def)

lemma steps_fold_Then_New: "steps (fold (\<lambda>st q. Then q st) sts New) = sts"
  using fold_Then_no_middleware [of New sts] by (simp add: New_def)

lemma steps_fold_Use: "steps (fold (\<lambda>mw q. Use q mw) mws p) = steps p"
  by (induction mws arbitrary: p) (simp_all add: Use_def)

lemma Execute_loop_succeeding:
  "\<forall>st\<in>set sts. \<forall>v u. snd (fst (st v u)) = None \<Longrightarrow>
     Execute_loop sts x w =
       ((fst (fold (\<lambda>st (v, u). (fst (fst (st v u)), snd (st v u))) sts (x, w)), None),
        snd (fold (\<lambda>st (v, u). (fst (fst (st v u)), snd (st v u))) sts (x, w)))"
proof (induction sts arbitrary: x w)
  case Nil
  then show ?case by simp
next
  case (Cons st sts)
  obtain v e u where call: "st x w = ((v, e), u)"
    by (metis surj_pair)
  from Cons.prems have "snd (fst (st x w)) = None" by simp
  with call have "e = None" by simp
  with call Cons show ?case by simp
qed

lemma Execute_loop_Wrap:
  "Execute_loop (map Wrap fs) x w = ((fold (\<lambda>f v. f v) fs x, None), w)"
  by (induction fs arbitrary: x) (simp_all add: Wrap_def)

subsection \<open>The arrays of a fan-out\<close>

lemma branch_call_Cons_other:
  "i \<noteq> idx \<Longrightarrow>
     branch_call branches input (idx # rest) w i =
       branch_call branches input rest (snd ((branches ! idx) input w)) i"
  by (simp add: branch_call_def)

lemma branch_call_Cons_self:
  "branch_call branches input (idx # rest) w idx = (branches ! idx) input w"
  by (simp add: branch_call_def)

text \<open>
  After the branches of a schedule have run, a slot whose branch was scheduled holds what
  that branch returned, and every other slot holds what it held before.
\<close>

lemma run_branches_slots:
  assumes "distinct sched" and "set sched \<subseteq> {0..<length results}"
    and "length errs = length results"
  shows "run_branches branches input sched results errs w =
           (map (\<lambda>i. if i \<in> set sched then fst (fst (branch_call branches input sched w i))
                       else results ! i) [0..<length results],
            map (\<lambda>i. if i \<in> set sched then snd (fst (branch_call branches input sched w i))
                       else errs ! i) [0..<length results],
            world_after branches input sched w)"
  using assms
proof (induction sched arbitrary: results errs w)
  case Nil
  then show ?case by (simp add: map_nth) (metis map_nth)
next
  case (Cons idx rest)
  obtain r e w' where call: "(branches ! idx) input w = ((r, e), w')"
    by (metis surj_pair)
  have idx: "idx < length results" "idx \<notin> set rest"
    using Cons.prems by simp_all
  have IH: "run_branches branches input rest (results[idx := r]) (errs[idx := e]) w' =
           (map (\<lambda>i. if i \<in> set rest then fst (fst (branch_call branches input rest w' i))
                       else results[idx := r] ! i) [0..<length results],
            map (\<lambda>i. if i \<in> set rest then snd (fst (branch_call branches input rest w' i))
                       else errs[idx := e] ! i) [0..<length results],
            world_after branches input rest w')"
    using Cons.IH [of "results[idx := r]" "errs[idx := e]" w'] Cons.prems by simp
  have vals: "(if i \<in> set rest then fst (fst (branch_call branches input rest w' i))
               else results[idx := r] ! i) =
              (if i \<in> set (idx # rest) then fst (fst (branch_call branches input (idx # rest) w i))
               else results ! i)" if "i < length results" for i
    using that idx call
    by (cases "i = idx") (auto simp: branch_call_Cons_other branch_call_Cons_self)
  have errors: "(if i \<in> set rest then snd (fst (branch_call branches input rest w' i))
               else errs[idx := e] ! i) =
              (if i \<in> set (idx # rest) then snd (fst (branch_call branches input (idx # rest) w i))
               else errs ! i)" if "i < length results" for i
    using that idx call Cons.prems(3)
    by (cases "i = idx") (auto simp: branch_call_Cons_other branch_call_Cons_self)
  show ?case
    using call IH vals errors by (simp cong: map_cong)
qed

lemma run_branches_schedule:
  assumes "is_schedule sched (length branches)"
  shows "run_branches branches input sched
           (replicate (length branches) zero) (replicate (length branches) None) w =
           (map (branch_result branches input sched w) [0..<length branches],
            map (branch_error branches input sched w) [0..<length branches],
            world_after branches input sched w)"
proof -
  have "distinct sched" and sched: "set sched = {0..<length branches}"
    using assms by (simp_all add: is_schedule_def)
  then have "run_branches branches input sched
           (replicate (length branches) zero) (replicate (length branches) None) w =
           (map (\<lambda>i. if i \<in> set sched then fst (fst (branch_call branches input sched w i))
                       else replicate (length branches) zero ! i) [0..<length branches],
            map (\<lambda>i. if i \<in> set sched then snd (fst (branch_call branches input sched w i))
                       else replicate (length branches) None ! i) [0..<length branches],
            world_after branches input sched w)"
    using run_branches_slots [of sched "replicate (length branches) zero"
        "replicate (length branches) None" branches input w]
    by simp
  then show ?thesis
    using sched by (simp add: branch_result_def branch_error_def cong: map_cong)
qed

text \<open>The scan returns the first error of the array in list order, if there is one.\<close>

lemma first_error_None:
  "first_error errs = None \<longleftrightarrow> (\<forall>i<length errs. errs ! i = None)"
  by (induction errs) (auto simp: less_Suc_eq_0_disj)

lemma first_error_Some:
  "first_error errs \<noteq> None \<Longrightarrow>
     \<exists>k<length errs. first_error errs = errs ! k \<and> errs ! k \<noteq> None \<and> (\<forall>j<k. errs ! j = None)"
proof (induction errs)
  case Nil
  then show ?case by simp
next
  case (Cons err rest)
  show ?case
  proof (cases "err = None")
    case True
    with Cons obtain k where k: "k < length rest" "first_error rest = rest ! k"
      "rest ! k \<noteq> None" "\<forall>j<k. rest ! j = None"
      by auto
    with True have "Suc k < length (err # rest) \<and> first_error (err # rest) = (err # rest) ! Suc k
        \<and> (err # rest) ! Suc k \<noteq> None \<and> (\<forall>j<Suc k. (err # rest) ! j = None)"
      by (auto simp: less_Suc_eq_0_disj)
    then show ?thesis by blast
  next
    case False
    then have "0 < length (err # rest) \<and> first_error (err # rest) = (err # rest) ! 0
        \<and> (err # rest) ! 0 \<noteq> None \<and> (\<forall>j<0. (err # rest) ! j = None)"
      by simp
    then show ?thesis by blast
  qed
qed

section \<open>Building a pipeline\<close>

text \<open>
  C3. \<open>Then\<close> appends the step wrapped in the middleware registered so far, applied from
  the last registered to the first: the wrapped step is \<open>m\<^sub>1 (m\<^sub>2 (\<dots> (m\<^sub>n step)))\<close> for
  the middleware list \<open>[m\<^sub>1, \<dots>, m\<^sub>n]\<close>, the last registered innermost and the first
  registered outermost. With \<open>A\<close> registered before \<open>B\<close> the step becomes \<open>A (B step)\<close>; when
  \<open>A\<close> and \<open>B\<close> each do something before and after the call they wrap, the effects on the
  world happen in the order before-\<open>A\<close>, before-\<open>B\<close>, the step, after-\<open>B\<close>, after-\<open>A\<close>.
\<close>

theorem Then_onion:
  "Then p step = p\<lparr>steps := steps p @ [foldr (\<lambda>mw st. mw st) (middlewares p) step]\<rparr>
   \<and> steps (Then (Use (Use New A) B) step) = [A (B step)]
   \<and> Execute (Then (Use (Use New (around_mw beforeA afterA)) (around_mw beforeB afterB)) step) x w =
       (case step x (beforeB x (beforeA x w)) of
          ((res, err), w') \<Rightarrow> ((res, err), afterA res (afterB res w')))"
  by (simp add: Then_def Then_loop_foldr Use_def New_def Execute_def around_mw_def
      split: prod.splits)

theorem Then_onion_witness:
  "Execute
     (Then (Use (Use New (around_mw (\<lambda>x l. l @ [''before A'']) (\<lambda>r l. l @ [''after A''])))
                (around_mw (\<lambda>x l. l @ [''before B'']) (\<lambda>r l. l @ [''after B''])))
           (\<lambda>x l. ((x + 2, None), l @ [''step''])))
     (1::int) []
   = ((3, None :: string option), [''before A'', ''before B'', ''step'', ''after B'', ''after A''])"
  using Then_onion
    [where step = "\<lambda>x l. ((x + 2, None :: string option), l @ [''step''])"
       and beforeA = "\<lambda>(x::int) l. l @ [''before A'']" and afterA = "\<lambda>(r::int) l. l @ [''after A'']"
       and beforeB = "\<lambda>(x::int) l. l @ [''before B'']" and afterB = "\<lambda>(r::int) l. l @ [''after B'']"
       and x = 1 and w = "[]", THEN conjunct2, THEN conjunct2]
  by simp

text \<open>
  C5. \<open>Use\<close> appends to the middleware list and leaves the step list as it is, so the
  pipeline executes as before. A step registered by \<open>Then\<close> stays wrapped in exactly the
  middleware registered before that call, in that order, however many middleware are
  registered afterwards, and also after a later \<open>Then\<close>.
\<close>

theorem Use_frame:
  "steps (Use p mw) = steps p
   \<and> middlewares (Use p mw) = middlewares p @ [mw]
   \<and> Execute (Use p mw) = Execute p
   \<and> steps (fold (\<lambda>mw q. Use q mw) mws (Then p st)) =
       steps p @ [foldr (\<lambda>mw st. mw st) (middlewares p) st]
   \<and> Execute (fold (\<lambda>mw q. Use q mw) mws (Then p st)) = Execute (Then p st)
   \<and> take (Suc (length (steps p))) (steps (Then (Use (Then p st) mw) st')) =
       steps p @ [foldr (\<lambda>mw st. mw st) (middlewares p) st]"
  by (simp add: steps_fold_Use Then_steps Execute_def fun_eq_iff)
     (simp add: Use_def Then_def Then_loop_foldr)

theorem Use_frame_witness:
  "Execute (Use (Then New (Wrap (\<lambda>x. x + 2)))
              (around_mw (\<lambda>x l. l @ [''before'']) (\<lambda>r l. l @ [''after''])))
     (1::int) ([] :: string list)
   = ((3, None :: string option), [])"
  using Use_frame
    [where p = "Then New (Wrap (\<lambda>x. x + 2)) :: (int, string, string list) Pipeline"
       and mw = "around_mw (\<lambda>x l. l @ [''before'']) (\<lambda>r l. l @ [''after''])",
     THEN conjunct2, THEN conjunct2, THEN conjunct1]
  by (simp add: Execute_def Then_def New_def Wrap_def)

section \<open>Execution\<close>

text \<open>
  C8. Executing a pipeline whose step list is empty returns the input unchanged, reports
  no failure and leaves the world as it was.
\<close>

theorem Execute_empty:
  "steps p = [] \<Longrightarrow> Execute p x w = ((x, None), w)"
  by (simp add: Execute_def)

theorem Execute_empty_witness:
  "steps (New :: (int, string, nat) Pipeline) = []
   \<and> Execute (New :: (int, string, nat) Pipeline) 7 0 = ((7, None), 0)"
  using Execute_empty [of "New :: (int, string, nat) Pipeline" 7 0]
  by (simp add: New_def)

text \<open>
  C4. A pipeline built from \<open>New\<close> by \<open>Then\<close> alone (no middleware), from steps that never
  fail, returns no failure and the composition of the steps in registration order: each
  step is fed the value and the world the one before it left. For steps \<open>Wrap f\<close> this
  is the composition of the functions \<open>f\<close> applied to the input, in an unchanged world.
\<close>

theorem Execute_composition:
  fixes sts :: "('t, 'e, 'w) StepFunc list"
  assumes "\<forall>st\<in>set sts. \<forall>v u. snd (fst (st v u)) = None"
  shows "Execute (fold (\<lambda>st q. Then q st) sts New) x w =
           ((fst (fold (\<lambda>st (v, u). (fst (fst (st v u)), snd (st v u))) sts (x, w)), None),
            snd (fold (\<lambda>st (v, u). (fst (fst (st v u)), snd (st v u))) sts (x, w)))
       \<and> Execute (fold (\<lambda>st q. Then q st) (map Wrap fs) New) x w =
           ((fold (\<lambda>f v. f v) fs x, None :: 'e option), w)"
  using Execute_loop_succeeding [OF assms]
  by (simp add: Execute_def Execute_loop_Wrap steps_fold_Then_New)

theorem Execute_composition_witness:
  "Execute (fold (\<lambda>st q. Then q st) [Wrap (\<lambda>x. x + 1), Wrap (\<lambda>x. x * 2)] New) (3::int) (0::nat)
     = ((8, None :: string option), 0)"
  using Execute_composition [of "[Wrap (\<lambda>x. x + 1), Wrap (\<lambda>x. x * 2)] :: (int, string, nat) StepFunc list" 3 0 "[]"]
  by (simp add: Wrap_def)

text \<open>
  C2. If the first \<open>k\<close> steps succeed, leaving the value \<open>v\<close> and the world \<open>w1\<close>, and
  step \<open>k\<close> called on \<open>v\<close> in \<open>w1\<close> fails with the value \<open>out\<close>, then \<open>Execute\<close> returns
  \<open>out\<close> (not \<open>v\<close>) with that failure, in the world that step \<open>k\<close> left. No later step
  runs: the outcome is the same whatever steps stand after step \<open>k\<close>.
\<close>

theorem Execute_short_circuit:
  assumes "k < length (steps p)"
    and "Execute_loop (take k (steps p)) x w = ((v, None), w1)"
    and "(steps p ! k) v w1 = ((out, Some e), w2)"
  shows "Execute p x w = ((out, Some e), w2)
       \<and> Execute (p\<lparr>steps := take (Suc k) (steps p) @ others\<rparr>) x w = ((out, Some e), w2)"
proof -
  have split: "steps p = take k (steps p) @ (steps p ! k) # drop (Suc k) (steps p)"
    using assms(1) by (simp add: id_take_nth_drop)
  have run: "Execute_loop (take k (steps p) @ (steps p ! k) # rest) x w = ((out, Some e), w2)" for rest
    using assms(2,3) by (simp add: Execute_loop_append)
  have "Execute p x w = ((out, Some e), w2)"
    unfolding Execute_def using run [of "drop (Suc k) (steps p)"] split by simp
  moreover have "take (Suc k) (steps p) @ others = take k (steps p) @ (steps p ! k) # others"
    using assms(1) by (simp add: take_Suc_conv_app_nth)
  then have "Execute (p\<lparr>steps := take (Suc k) (steps p) @ others\<rparr>) x w = ((out, Some e), w2)"
    using run [of others] by (simp add: Execute_def)
  ultimately show ?thesis by simp
qed

theorem Execute_short_circuit_witness:
  "Execute
     (Then (Then (Then New (\<lambda>x n. ((x + 1, None), n)))
                 (\<lambda>x n. ((x, Some ''failure''), n)))
           (\<lambda>x n. ((x * 2, None), Suc n)))
     (3::int) (0::nat)
   = ((4, Some ''failure''), 0)"
  using Execute_short_circuit
    [of 1 "Then (Then (Then New (\<lambda>x n. ((x + 1, None), n)))
                      (\<lambda>x n. ((x, Some ''failure''), n)))
                (\<lambda>x n. ((x * 2, None), Suc n))"
        "3::int" "0::nat" 4 0 4 "''failure''" 0 "[]"]
  by (simp add: Then_def New_def)

section \<open>Conditional\<close>

text \<open>
  C7. One call of the step \<open>Conditional predicate thenStep elseStep\<close> runs the predicate
  once, on the input, and returns what \<open>thenStep\<close> returns on the input when the predicate
  holds and what \<open>elseStep\<close> returns when it does not; value, failure and world are those
  of the chosen branch, run in the world the predicate left, and the other branch does
  not run.
\<close>

theorem Conditional_routes:
  "predicate x w = (b, w') \<Longrightarrow>
     Conditional predicate thenStep elseStep x w = (if b then thenStep x w' else elseStep x w')"
  by (simp add: Conditional_def)

theorem Conditional_routes_witness:
  "Conditional (\<lambda>x (p, t, e). (x mod 2 = 0, (Suc p, t, e)))
       (\<lambda>x (p, t, e). ((x + 1, None), (p, Suc t, e)))
       (\<lambda>x (p, t, e). ((x - 1, None), (p, t, Suc e))) (4::int) (0::nat, 0::nat, 0::nat)
     = ((5, None :: string option), (1, 1, 0))
   \<and> Conditional (\<lambda>x (p, t, e). (x mod 2 = 0, (Suc p, t, e)))
       (\<lambda>x (p, t, e). ((x + 1, None), (p, Suc t, e)))
       (\<lambda>x (p, t, e). ((x - 1, None), (p, t, Suc e))) (3::int) (0::nat, 0::nat, 0::nat)
     = ((2, None :: string option), (1, 0, 1))"
  using Conditional_routes [of "\<lambda>x (p, t, e). (x mod 2 = 0, (Suc p, t, e))" "4::int" "(0::nat, 0::nat, 0::nat)" True "(1, 0, 0)"
       "\<lambda>x (p, t, e). ((x + 1, None :: string option), (p, Suc t, e))"
       "\<lambda>x (p, t, e). ((x - 1, None), (p, t, Suc e))"]
     Conditional_routes [of "\<lambda>x (p, t, e). (x mod 2 = 0, (Suc p, t, e))" "3::int" "(0::nat, 0::nat, 0::nat)" False "(1, 0, 0)"
       "\<lambda>x (p, t, e). ((x + 1, None :: string option), (p, Suc t, e))"
       "\<lambda>x (p, t, e). ((x - 1, None), (p, t, Suc e))"]
  by simp

section \<open>Parallel\<close>

text \<open>
  C6. Under every schedule of the branches, if no branch fails, the results array holds
  at each index the value returned by the branch at that index of the list, the errors
  array the branch's outcome, and the step returns what the combiner returns, called on
  that results array in the world the branches left.
\<close>

theorem Parallel_success:
  assumes "is_schedule sched (length branches)"
    and "\<forall>i<length branches. branch_error branches input sched w i = None"
  shows "run_branches branches input sched
           (replicate (length branches) zero) (replicate (length branches) None) w =
           (map (branch_result branches input sched w) [0..<length branches],
            map (branch_error branches input sched w) [0..<length branches],
            world_after branches input sched w)
       \<and> Parallel zero sched combiner branches input w =
           combiner (map (branch_result branches input sched w) [0..<length branches])
             (world_after branches input sched w)"
proof -
  have "first_error (map (branch_error branches input sched w) [0..<length branches]) = None"
    using assms(2) by (simp add: first_error_None)
  then show ?thesis
    by (simp add: Parallel_def run_branches_schedule [OF assms(1)])
qed

theorem Parallel_success_witness:
  "is_schedule [1, 0] 2
   \<and> Parallel (0::int) [1, 0] sum_combiner [Wrap (\<lambda>x. x + 1), Wrap (\<lambda>x. x * 2)] 3 (0::nat)
       = ((10, None :: string option), 0)"
proof -
  let ?bs = "[Wrap (\<lambda>x. x + 1), Wrap (\<lambda>x. x * 2)] :: (int, string, nat) StepFunc list"
  have sched: "is_schedule [1, 0] (length ?bs)"
    by (auto simp: is_schedule_def)
  have ok: "\<forall>i<length ?bs. branch_error ?bs 3 [1, 0] 0 i = None"
    by (simp add: branch_error_def branch_call_def Wrap_def less_Suc_eq_0_disj numeral_2_eq_2)
  from Parallel_success [OF sched ok, of 0 sum_combiner]
  have run: "Parallel 0 [1, 0] sum_combiner ?bs 3 0 = ((10, None), 0)"
    by (simp add: branch_result_def branch_call_def Wrap_def sum_combiner_def)
  have "is_schedule [1, 0] 2"
    by (auto simp: is_schedule_def)
  then show ?thesis using run by (rule conjI)
qed

text \<open>
  C1. Under every schedule of the branches, if some branch \<open>i\<close> fails, the step returns
  the failure of the earliest failing branch \<open>k\<close> of the list (so \<open>k \<le> i\<close>), together
  with the value returned by branch \<open>0\<close>, in the world the branches left: the combiner
  has no part in the outcome.
\<close>

theorem Parallel_failure:
  assumes "is_schedule sched (length branches)"
    and "i < length branches"
    and "branch_error branches input sched w i \<noteq> None"
  shows "\<exists>k\<le>i. branch_error branches input sched w k \<noteq> None
           \<and> (\<forall>j<k. branch_error branches input sched w j = None)
           \<and> Parallel zero sched combiner branches input w =
               ((branch_result branches input sched w 0, branch_error branches input sched w k),
                world_after branches input sched w)"
proof -
  let ?errs = "map (branch_error branches input sched w) [0..<length branches]"
  let ?results = "map (branch_result branches input sched w) [0..<length branches]"
  have failed: "?errs ! i \<noteq> None"
    using assms(2,3) by simp
  then have "first_error ?errs \<noteq> None"
    using assms(2) by (auto simp: first_error_None)
  from first_error_Some [OF this] obtain k where k: "k < length branches"
    "first_error ?errs = ?errs ! k" "?errs ! k \<noteq> None" "\<forall>j<k. ?errs ! j = None"
    by auto
  have earliest: "branch_error branches input sched w k \<noteq> None"
    "\<forall>j<k. branch_error branches input sched w j = None"
    using k(1,3,4) by simp_all
  then obtain e where e: "branch_error branches input sched w k = Some e"
    by auto
  have "k \<le> i"
  proof (rule ccontr)
    assume "\<not> k \<le> i"
    then have "?errs ! i = None" using k(4) by simp
    with failed show False by simp
  qed
  have "first_error ?errs = Some e"
    using k(1,2) e by simp
  then have "Parallel zero sched combiner branches input w =
      ((?results ! 0, Some e), world_after branches input sched w)"
    by (simp add: Parallel_def run_branches_schedule [OF assms(1)])
  moreover have "0 < length branches"
    using assms(2) by auto
  then have "?results ! 0 = branch_result branches input sched w 0"
    by simp
  ultimately have "Parallel zero sched combiner branches input w =
      ((branch_result branches input sched w 0, branch_error branches input sched w k),
       world_after branches input sched w)"
    using e by simp
  with \<open>k \<le> i\<close> earliest show ?thesis by blast
qed

theorem Parallel_failure_witness:
  "is_schedule [2, 0, 1] 3
   \<and> Parallel (0::int) [2, 0, 1] (\<lambda>rs n. ((0, None), n + 100))
        [\<lambda>x n. ((x + 1, None), Suc n),
         \<lambda>x n. ((x * 2, Some ''e1''), Suc n),
         \<lambda>x n. ((x, Some ''e2''), Suc n)] 3 (0::nat)
       = ((4, Some ''e1''), 3)"
proof -
  let ?bs = "[\<lambda>x n. ((x + 1, None), Suc n),
         \<lambda>x n. ((x * 2, Some ''e1''), Suc n),
         \<lambda>x n. ((x, Some ''e2''), Suc n)] :: (int, string, nat) StepFunc list"
  have sched: "is_schedule [2, 0, 1] (length ?bs)"
    by (auto simp: is_schedule_def)
  have e0: "branch_error ?bs 3 [2, 0, 1] 0 0 = None"
    and e1: "branch_error ?bs 3 [2, 0, 1] 0 1 = Some ''e1''"
    and e2: "branch_error ?bs 3 [2, 0, 1] 0 2 = Some ''e2''"
    by (simp_all add: branch_error_def branch_call_def)
  from Parallel_failure [OF sched, of 2 3 0 0 "\<lambda>rs n. ((0, None), n + 100)"] e2
  obtain k where k: "k \<le> 2" "branch_error ?bs 3 [2, 0, 1] 0 k \<noteq> None"
    "\<forall>j<k. branch_error ?bs 3 [2, 0, 1] 0 j = None"
    "Parallel 0 [2, 0, 1] (\<lambda>rs n. ((0, None), n + 100)) ?bs 3 0 =
       ((branch_result ?bs 3 [2, 0, 1] 0 0, branch_error ?bs 3 [2, 0, 1] 0 k),
        world_after ?bs 3 [2, 0, 1] 0)"
    by auto
  have "k \<noteq> 0" using k(2) e0 by metis
  moreover have "\<not> 1 < k" using k(3) e1 by (metis option.distinct(1))
  ultimately have "k = 1" by arith
  with k(4) e1 have run: "Parallel 0 [2, 0, 1] (\<lambda>rs n. ((0, None), n + 100)) ?bs 3 0 =
      ((4, Some ''e1''), 3)"
    by (simp add: branch_result_def branch_call_def)
  have "is_schedule [2, 0, 1] 3"
    by (auto simp: is_schedule_def)
  then show ?thesis using run by (rule conjI)
qed

text \<open>
  C10. With no branches the only schedule is the empty one: no branch runs, both arrays
  are empty, the scan finds nothing, and the step returns what the combiner returns on
  the empty results array in the world of the call.
\<close>

theorem Parallel_no_branches:
  assumes "is_schedule sched 0"
  shows "run_branches [] input sched [] [] w = ([], [], w)
       \<and> Parallel zero sched combiner [] input w = combiner [] w"
proof -
  have "sched = []" using assms by (simp add: is_schedule_def)
  then show ?thesis by (simp add: Parallel_def)
qed

theorem Parallel_no_branches_witness:
  "is_schedule [] 0
   \<and> Parallel (0::int) [] (\<lambda>rs n. ((int (length rs), Some ''combined''), Suc n)) [] 3 (0::nat)
       = ((0, Some ''combined''), 1)"
proof -
  have sched: "is_schedule [] 0"
    by (simp add: is_schedule_def)
  from Parallel_no_branches [OF sched, of "3::int" "0::nat" "0::int"
      "\<lambda>rs n. ((int (length rs), Some ''combined''), Suc n)"]
  have "Parallel (0::int) [] (\<lambda>rs n. ((int (length rs), Some ''combined''), Suc n)) [] 3 (0::nat)
       = ((0, Some ''combined''), 1)"
    by simp
  with sched show ?thesis by (rule conjI)
qed

end
